theory Spec2Isabelle
  imports Complex_Main
begin

section \<open>Data model of the snake (snake.c)\<close>

text \<open>
  Modelled from the spec: the header snake.h, which declares \<open>Point\<close>, \<open>Node\<close>,
  \<open>Snake\<close> and \<open>Direction\<close>, is not among the source files. The declarations below
  follow the spec's data model and the way snake.c, screen.c and main.c use the fields.
  A \<open>Point\<close> is a pair of integers; its fields \<open>x\<close> and \<open>y\<close> are named \<open>px\<close> and
  \<open>py\<close> here. The coordinates are unbounded integers: a snake on the field of a
  terminal stays far from the limits of C's \<open>int\<close>, where \<open>++\<close> and \<open>--\<close> are undefined.
  \<open>length\<close> counts segments and is a natural number.
\<close>

record Point =
  px :: int
  py :: int

text \<open>
  Modelled from the spec: the enumeration \<open>Direction\<close> of the missing snake.h. The code
  computes with the enumerators as numbers (\<open>rand() % (WEST + 1)\<close>,
  \<open>(direction + 2) % (WEST + 1)\<close>); the spec lists them as NORTH, EAST, SOUTH, WEST, so
  they number 0, 1, 2, 3 in this order.
\<close>

datatype Direction = NORTH | EAST | SOUTH | WEST

fun dir_val :: "Direction \<Rightarrow> nat" where
  "dir_val NORTH = 0"
| "dir_val EAST = 1"
| "dir_val SOUTH = 2"
| "dir_val WEST = 3"

definition dir_of :: "nat \<Rightarrow> Direction" where
  "dir_of n = (if n = 0 then NORTH else if n = 1 then EAST else if n = 2 then SOUTH else WEST)"

text \<open>The exact opposite of a heading, as the spec speaks of it.\<close>

fun opposite :: "Direction \<Rightarrow> Direction" where
  "opposite NORTH = SOUTH"
| "opposite EAST = WEST"
| "opposite SOUTH = NORTH"
| "opposite WEST = EAST"

text \<open>
  Segments live on the heap. An address is a natural number, a pointer is an optional
  address (\<open>None\<close> is \<open>NULL\<close>), and the heap maps the addresses of the live nodes to their
  contents; \<open>free\<close> removes an address from it. The field \<open>next\<close> of a node is named
  \<open>nxt\<close> here. \<open>prev\<close> points toward the tail, \<open>nxt\<close> toward the head.
\<close>

type_synonym addr = nat

record Node =
  pos :: Point
  prev :: "addr option"
  nxt :: "addr option"

type_synonym heap = "addr \<Rightarrow> Node option"

record Snake =
  head :: "addr option"
  tail :: "addr option"
  direction :: Direction
  length_snake :: nat

text \<open>
  What C leaves undefined is a value of the model: reading or writing through \<open>NULL\<close> or
  through a pointer to a node that is not live, an access outside an array, a division
  by zero, a conversion whose value does not fit.
\<close>

datatype fault = NullPointer | InvalidPointer | OutOfBounds | DivisionByZero | Overflow

definition bindF :: "fault + 'a \<Rightarrow> ('a \<Rightarrow> fault + 'b) \<Rightarrow> fault + 'b" where
  "bindF m k = (case m of Inl e \<Rightarrow> Inl e | Inr v \<Rightarrow> k v)"

definition load :: "heap \<Rightarrow> addr option \<Rightarrow> fault + Node" where
  "load h p =
     (case p of
        None \<Rightarrow> Inl NullPointer
      | Some a \<Rightarrow> (case h a of None \<Rightarrow> Inl InvalidPointer | Some n \<Rightarrow> Inr n))"

definition update :: "heap \<Rightarrow> addr option \<Rightarrow> (Node \<Rightarrow> Node) \<Rightarrow> fault + heap" where
  "update h p f =
     (case p of
        None \<Rightarrow> Inl NullPointer
      | Some a \<Rightarrow> (case h a of None \<Rightarrow> Inl InvalidPointer | Some n \<Rightarrow> Inr (h(a \<mapsto> f n))))"

section \<open>Operations of snake.c\<close>

text \<open>
  \<open>newNode\<close>: the address \<open>a\<close> is the one \<open>malloc\<close> returned; the allocator's choice is
  an input of the model. The source does not test it for \<open>NULL\<close>; a failed allocation is
  outside the model.
\<close>

definition newNode :: "heap \<Rightarrow> addr \<Rightarrow> Point \<Rightarrow> addr option \<Rightarrow> addr option \<times> heap" where
  "newNode h a p pv = (Some a, h(a \<mapsto> \<lparr>pos = p, prev = pv, nxt = None\<rparr>))"

definition destroyNode :: "heap \<Rightarrow> addr option \<Rightarrow> fault + heap" where
  "destroyNode h self =
     (case self of
        None \<Rightarrow> Inr h
      | Some a \<Rightarrow> (case h a of None \<Rightarrow> Inl InvalidPointer | Some n \<Rightarrow> Inr (h(a := None))))"

text \<open>\<open>newSnake\<close>: \<open>r\<close> is the value \<open>rand()\<close> returned.\<close>

definition newSnake :: "heap \<Rightarrow> addr \<Rightarrow> Point \<Rightarrow> nat \<Rightarrow> Snake \<times> heap" where
  "newSnake h a center r =
     (let (n, h1) = newNode h a center None
      in (\<lparr>head = n, tail = n, direction = dir_of (r mod (dir_val WEST + 1)),
           length_snake = 1\<rparr>, h1))"

text \<open>The switch of \<open>advance\<close>: the head's position moved one cell in a direction.\<close>

fun move :: "Direction \<Rightarrow> Point \<Rightarrow> Point" where
  "move NORTH p = p\<lparr>py := py p - 1\<rparr>"
| "move EAST p = p\<lparr>px := px p + 1\<rparr>"
| "move SOUTH p = p\<lparr>py := py p + 1\<rparr>"
| "move WEST p = p\<lparr>px := px p - 1\<rparr>"

text \<open>
  \<open>advance\<close>, statement by statement: copy the head's position and move it; push the new
  head (\<open>self->head->next = newNode(...)\<close>, \<open>self->head = self->head->next\<close>); pop the
  tail (\<open>oldTail = self->tail\<close>, \<open>self->tail = self->tail->next\<close>,
  \<open>self->tail->prev = NULL\<close>); return \<open>oldTail\<close>.
\<close>

definition advance :: "Snake \<Rightarrow> heap \<Rightarrow> addr \<Rightarrow> fault + (addr option \<times> Snake \<times> heap)" where
  "advance self h a =
     bindF (load h (head self)) (\<lambda>hn.
     let newHeadPosition = move (direction self) (pos hn);
         (n, h1) = newNode h a newHeadPosition (head self)
     in bindF (update h1 (head self) (\<lambda>nd. nd\<lparr>nxt := n\<rparr>)) (\<lambda>h2.
        bindF (load h2 (head self)) (\<lambda>hn2.
        let self1 = self\<lparr>head := nxt hn2\<rparr>;
            oldTail = tail self1
        in bindF (load h2 (tail self1)) (\<lambda>tn.
           let self2 = self1\<lparr>tail := nxt tn\<rparr>
           in bindF (update h2 (tail self2) (\<lambda>nd. nd\<lparr>prev := None\<rparr>)) (\<lambda>h3.
              Inr (oldTail, self2, h3))))))"

definition changeDirection :: "Snake \<Rightarrow> Direction \<Rightarrow> Snake" where
  "changeDirection self d =
     (if d = direction self \<or>
         (length_snake self > 1 \<and>
          dir_val d = (dir_val (direction self) + 2) mod (dir_val WEST + 1))
      then self
      else self\<lparr>direction := d\<rparr>)"

definition grow :: "Snake \<Rightarrow> heap \<Rightarrow> addr option \<Rightarrow> fault + (Snake \<times> heap)" where
  "grow self h oldTail =
     bindF (update h oldTail (\<lambda>nd. nd\<lparr>nxt := tail self\<rparr>)) (\<lambda>h1.
     Inr (self\<lparr>tail := oldTail, length_snake := length_snake self + 1\<rparr>, h1))"

section \<open>The chain of segments\<close>

text \<open>
  \<open>path_nxt h p as\<close>: following the \<open>nxt\<close> links from the pointer \<open>p\<close> visits exactly
  the live nodes \<open>as\<close>, in this order, and then reaches \<open>NULL\<close>. \<open>path_prev\<close> is the same
  walk along the \<open>prev\<close> links.
\<close>

fun path_nxt :: "heap \<Rightarrow> addr option \<Rightarrow> addr list \<Rightarrow> bool" where
  "path_nxt h p [] = (p = None)"
| "path_nxt h p (a # as) =
     (p = Some a \<and> (case h a of None \<Rightarrow> False | Some n \<Rightarrow> path_nxt h (nxt n) as))"

fun path_prev :: "heap \<Rightarrow> addr option \<Rightarrow> addr list \<Rightarrow> bool" where
  "path_prev h p [] = (p = None)"
| "path_prev h p (a # as) =
     (p = Some a \<and> (case h a of None \<Rightarrow> False | Some n \<Rightarrow> path_prev h (prev n) as))"

text \<open>The position stored in the node a pointer refers to, when there is one.\<close>

definition pos_at :: "heap \<Rightarrow> addr option \<Rightarrow> Point option" where
  "pos_at h p = (case p of None \<Rightarrow> None | Some a \<Rightarrow> map_option pos (h a))"

text \<open>
  \<open>snake_chain self h ns\<close>: the segments of the snake are the nodes \<open>ns\<close>, listed from the
  tail to the head. The \<open>nxt\<close> links lead from the tail through all of them to the head,
  \<open>length\<close> counts them, and the \<open>prev\<close> links lead from the head back through all of
  them, or through all but the tail: \<open>grow\<close> does not write the \<open>prev\<close> link of the
  segment above the tail it re-attaches, so that link is \<open>NULL\<close> until the next
  \<open>advance\<close>.
\<close>

definition snake_chain :: "Snake \<Rightarrow> heap \<Rightarrow> addr list \<Rightarrow> bool" where
  "snake_chain self h ns =
     (ns \<noteq> [] \<and> path_nxt h (tail self) ns \<and> head self = Some (last ns) \<and>
      length_snake self = length ns \<and>
      (path_prev h (head self) (rev ns) \<or> path_prev h (head self) (rev (tl ns))))"



section \<open>Loops over the chain (snake.c)\<close>

text \<open>
  The loops of snake.c follow pointers, and on a cyclic chain a walk never ends: they are
  partial functions, whose value \<open>None\<close> stands for a call that does not return. A call
  that returns gives \<open>Some\<close> of a fault or of its result.

  \<open>destroySnake\<close>: the loop starts at \<open>self->head\<close> and follows \<open>next\<close>, freeing each
  node it visits. The \<open>Snake\<close> structure itself is a value of the model, so its own
  \<open>free(self)\<close> has no counterpart; a \<open>NULL\<close> snake is \<open>None\<close>.
\<close>

partial_function (option) destroy_loop :: "heap \<Rightarrow> addr option \<Rightarrow> (fault + heap) option" where
  "destroy_loop h current =
     (case current of
        None \<Rightarrow> Some (Inr h)
      | Some a \<Rightarrow>
          (case h a of
             None \<Rightarrow> Some (Inl InvalidPointer)
           | Some n \<Rightarrow>
               (case destroyNode h current of
                  Inl e \<Rightarrow> Some (Inl e)
                | Inr h' \<Rightarrow> destroy_loop h' (nxt n))))"

definition destroySnake :: "Snake option \<Rightarrow> heap \<Rightarrow> (fault + heap) option" where
  "destroySnake self h =
     (case self of None \<Rightarrow> Some (Inr h) | Some s \<Rightarrow> destroy_loop h (head s))"









text \<open>
  The states a round can be in between frames, as far as the snake goes: a new snake;
  a change of direction; a frame that advances and frees the detached tail; a frame that
  advances and re-attaches it with \<open>grow\<close>. The allocator hands out addresses that are
  not live.
\<close>

inductive settled :: "Snake \<Rightarrow> heap \<Rightarrow> bool" where
  settled_new: "h a = None \<Longrightarrow> newSnake h a c r = (s, h') \<Longrightarrow> settled s h'"
| settled_turn: "settled s h \<Longrightarrow> settled (changeDirection s d) h"
| settled_step:
    "settled s h \<Longrightarrow> h a = None \<Longrightarrow> advance s h a = Inr (t, s', h') \<Longrightarrow>
     destroyNode h' t = Inr h'' \<Longrightarrow> settled s' h''"
| settled_grow:
    "settled s h \<Longrightarrow> h a = None \<Longrightarrow> advance s h a = Inr (t, s', h') \<Longrightarrow>
     grow s' h' t = Inr (s'', h'') \<Longrightarrow> settled s'' h''"

text \<open>
  A growth frame from the start of a round: a new snake at (5, 5) in node 0, heading
  east (\<open>rand()\<close> gave 1), advances into node 1 and grows.
\<close>

definition growth_frame :: "fault + (Snake \<times> heap)" where
  "growth_frame =
     (let (s0, h0) = newSnake Map.empty 0 \<lparr>px = 5, py = 5\<rparr> 1
      in bindF (advance s0 h0 1) (\<lambda>(t, s1, h1). grow s1 h1 t))"

section \<open>The screen (screen.c)\<close>

text \<open>
  C's integer division truncates toward zero, and \<open>%\<close> is the remainder of that
  division; a zero divisor is undefined.
\<close>

definition cdiv :: "int \<Rightarrow> int \<Rightarrow> int" where
  "cdiv a b = sgn a * sgn b * (\<bar>a\<bar> div \<bar>b\<bar>)"

definition crem :: "int \<Rightarrow> int \<Rightarrow> int" where
  "crem a b = a - b * cdiv a b"

text \<open>
  The fields of \<open>Screen\<close> that screen.c and main.c use. \<open>grid\<close> is an array of
  \<open>mapHeight + 1\<close> rows of \<open>mapWidth + 1\<close> integers, indexed \<open>grid[y][x]\<close>; a cell holds 1
  when it is marked occupied and 0 otherwise. An access outside the array is undefined.
\<close>

record Screen =
  width :: int
  height :: int
  mapWidth :: int
  mapHeight :: int
  playingSurface :: int
  offset :: Point
  grid :: "int list list"
  orb :: Point

definition grid_get :: "int list list \<Rightarrow> int \<Rightarrow> int \<Rightarrow> fault + int" where
  "grid_get g gy gx =
     (if 0 \<le> gy \<and> gy < int (length g) \<and> 0 \<le> gx \<and> gx < int (length (g ! nat gy))
      then Inr (g ! nat gy ! nat gx) else Inl OutOfBounds)"


text \<open>
  \<open>newScreen\<close>: \<open>maxx\<close> and \<open>maxy\<close> are what \<open>getmaxx(stdscr)\<close> and \<open>getmaxy(stdscr)\<close>
  return. \<open>calloc\<close> gives rows of zeros. The orb is not initialised by the source; the
  model starts it at (0, 0).
\<close>

definition newScreen :: "int \<Rightarrow> int \<Rightarrow> Screen" where
  "newScreen maxx maxy =
     (let w = maxx - 1; h = maxy - 1; mw = cdiv w 4; mh = cdiv (h * 2) 3
      in \<lparr>width = w, height = h, mapWidth = mw, mapHeight = mh,
          playingSurface = mw * mh,
          offset = \<lparr>px = cdiv (w - mw * 2) 2, py = cdiv (h - mh) 2\<rparr>,
          grid = replicate (nat (mh + 1)) (replicate (nat (mw + 1)) 0),
          orb = \<lparr>px = 0, py = 0\<rparr>\<rparr>)"

text \<open>\<open>insideBoundaries\<close>, on the position of the snake's head.\<close>

definition inside :: "Screen \<Rightarrow> Point \<Rightarrow> bool" where
  "inside self p =
     (px p \<le> mapWidth self \<and> px p \<ge> 0 \<and> py p \<le> mapHeight self \<and> py p \<ge> 0)"


text \<open>
  What the program does to the terminal and the clock is a list of events, the latest
  last. Colours are the numbers of ncurses (red 1, green 2, yellow 3, magenta 5); the
  snake's head is drawn in colour 8.
\<close>

datatype event =
    DrawPoint Point nat
  | Blank Point
  | Score nat
  | Walls
  | ShowDialog nat Point
  | Sleep int

definition COLOR_MAGENTA :: nat where "COLOR_MAGENTA = 5"

text \<open>
  \<open>spawnOrb\<close>: \<open>rnd\<close> is the sequence of values that \<open>rand()\<close> returns and \<open>i\<close> the number
  of calls made so far. Each round of the loop draws \<open>orb.x\<close>, then \<open>orb.y\<close>, and repeats
  while the cell of the grid there holds 1. The loop has no other exit, so it is a
  partial function.
\<close>

definition sample :: "Screen \<Rightarrow> (nat \<Rightarrow> nat) \<Rightarrow> nat \<Rightarrow> Point" where
  "sample self rnd i =
     \<lparr>px = crem (int (rnd i)) (mapWidth self + 1),
      py = crem (int (rnd (i + 1))) (mapHeight self + 1)\<rparr>"

partial_function (option) spawnOrb_loop ::
  "Screen \<Rightarrow> (nat \<Rightarrow> nat) \<Rightarrow> nat \<Rightarrow> (fault + Screen \<times> nat) option" where
  "spawnOrb_loop self rnd i =
     (if mapWidth self + 1 = 0 \<or> mapHeight self + 1 = 0 then Some (Inl DivisionByZero)
      else
        let self' = self\<lparr>orb := sample self rnd i\<rparr>
        in (case grid_get (grid self') (py (orb self')) (px (orb self')) of
              Inl e \<Rightarrow> Some (Inl e)
            | Inr v \<Rightarrow>
                if v = 1 then spawnOrb_loop self' rnd (i + 2) else Some (Inr (self', i + 2))))"

definition spawnOrb ::
  "Screen \<Rightarrow> (nat \<Rightarrow> nat) \<Rightarrow> nat \<Rightarrow> (fault + Screen \<times> nat \<times> event list) option" where
  "spawnOrb self rnd i =
     (case spawnOrb_loop self rnd i of
        None \<Rightarrow> None
      | Some (Inl e) \<Rightarrow> Some (Inl e)
      | Some (Inr (self', j)) \<Rightarrow> Some (Inr (self', j, [DrawPoint (orb self') COLOR_MAGENTA])))"

text \<open>
  A screen is well formed when its grid has the rows and cells that \<open>newScreen\<close>
  allocates. A cell is occupied when the grid holds 1 there.
\<close>

definition screen_ok :: "Screen \<Rightarrow> bool" where
  "screen_ok self =
     (0 \<le> mapWidth self \<and> 0 \<le> mapHeight self \<and>
      length (grid self) = nat (mapHeight self + 1) \<and>
      list_all (\<lambda>row. length row = nat (mapWidth self + 1)) (grid self))"

definition occupied :: "Screen \<Rightarrow> Point \<Rightarrow> bool" where
  "occupied self p = (grid_get (grid self) (py p) (px p) = Inr 1)"

text \<open>Small screens for examples: one row of two cells.\<close>

definition row_screen :: "int list \<Rightarrow> Screen" where
  "row_screen cells =
     \<lparr>width = 7, height = 1, mapWidth = 1, mapHeight = 0, playingSurface = 0,
      offset = \<lparr>px = 2, py = 0\<rparr>, grid = [cells], orb = \<lparr>px = 0, py = 0\<rparr>\<rparr>"

definition full_screen :: Screen where
  "full_screen = (newScreen 6 3)\<lparr>grid := [[1, 1], [1, 1]]\<rparr>"

section \<open>Pacing (main.c)\<close>


datatype Difficulty = INCREMENTAL | EASY | MEDIUM | HARD

text \<open>
  \<open>progress\<close> is a \<open>float\<close>. The model computes with exact rational numbers and leaves
  the rounding of \<open>float\<close> arithmetic out; the one value it keeps apart is the infinity
  that the division by a zero product gives. \<open>growth_progress\<close> is the value assigned in
  \<open>progress = (float)snake->length / (screen->mapWidth * screen->mapHeight)\<close>.
\<close>

datatype cfloat = Finite rat | Infinite






section \<open>The game loop (main.c)\<close>

text \<open>
  The state of \<open>main\<close>: its local variables, the heap of nodes, the number of calls of
  \<open>rand()\<close> made so far and the events emitted so far.
\<close>

record World =
  snake :: Snake
  nodes :: heap
  screen :: Screen
  quit :: bool
  collision :: Point
  progress :: cfloat
  difficulty :: Difficulty
  wallCollision :: bool
  rand_calls :: nat
  out :: "event list"

text \<open>
  What a frame takes from outside: the key \<open>getch()\<close> returns (-1 when none is
  pending), the address \<open>malloc\<close> returns in \<open>advance\<close>, and, for the case that the
  round ends in the frame, the answer of the dialog (whether to quit, and the difficulty
  it leaves behind), the size of the terminal, and the address \<open>malloc\<close> returns for the
  node of the new snake.
\<close>

record Input =
  key :: int
  malloc1 :: addr
  answer_quit :: bool
  answer_difficulty :: Difficulty
  maxx :: int
  maxy :: int
  malloc2 :: addr

text \<open>
  A computation that may not return (\<open>None\<close>), or returns a fault or a value. \<open>ret\<close>
  lifts a computation without loops.
\<close>

definition bindP :: "(fault + 'a) option \<Rightarrow> ('a \<Rightarrow> (fault + 'b) option) \<Rightarrow> (fault + 'b) option" where
  "bindP m k = (case m of None \<Rightarrow> None | Some (Inl e) \<Rightarrow> Some (Inl e) | Some (Inr v) \<Rightarrow> k v)"

definition ret :: "fault + 'a \<Rightarrow> (fault + 'a) option" where
  "ret m = Some m"









text \<open>
  The start of a round, before the first frame: the screen, the snake at its centre, the
  welcome dialog, the walls, the first orb, the score. The dialog is an external
  collaborator: the model takes its answer, and what it draws, allocates or draws from
  \<open>rand()\<close> while it waits is not part of the model.
\<close>

definition round_start :: "(nat \<Rightarrow> nat) \<Rightarrow> Input \<Rightarrow> (fault + World) option" where
  "round_start rnd inp =
     (let scr0 = newScreen (maxx inp) (maxy inp);
          (s, h) = newSnake Map.empty (malloc2 inp)
                     \<lparr>px = cdiv (mapWidth scr0) 2, py = cdiv (mapHeight scr0) 2\<rparr> (rnd 0)
      in bindP (spawnOrb scr0 rnd 1) (\<lambda>(scr, j, evs).
         Some (Inr \<lparr>snake = s, nodes = h, screen = scr, quit = answer_quit inp,
                    collision = \<lparr>px = - 1, py = - 1\<rparr>, progress = Finite 0,
                    difficulty = answer_difficulty inp, wallCollision = False,
                    rand_calls = j,
                    out = [ShowDialog 0 \<lparr>px = 0, py = 0\<rparr>, Walls] @ evs
                          @ [Score (length_snake s)]\<rparr>)))"

text \<open>
  The start of a round on a terminal of 80 columns and 24 lines, where \<open>rand()\<close>
  returns 7, then 9, then 7.
\<close>

definition start_input :: Input where
  "start_input = \<lparr>key = - 1, malloc1 = 1, answer_quit = False,
     answer_difficulty = INCREMENTAL, maxx = 80, maxy = 24, malloc2 = 0\<rparr>"

definition start_rand :: "nat \<Rightarrow> nat" where
  "start_rand n = (if n = 1 then 9 else 7)"



section \<open>Changing direction\<close>

lemma dir_val_opposite:
  "(dir_val d = (dir_val c + 2) mod (dir_val WEST + 1)) = (d = opposite c)"
  by (cases d; cases c) simp_all

text \<open>
  Claim C4. \<open>changeDirection\<close> leaves the heading as it is when the requested direction
  is the current heading, or its exact opposite while the length is above 1, and sets
  the heading to the requested direction otherwise; no other field of the snake changes
  (the function has no access to the segments); with length 1 the heading is the
  requested direction after the call.
\<close>

theorem changeDirection_heading:
  "direction (changeDirection self d) =
     (if d = direction self \<or> (length_snake self > 1 \<and> d = opposite (direction self))
      then direction self else d)
   \<and> changeDirection self d = self\<lparr>direction := direction (changeDirection self d)\<rparr>
   \<and> head (changeDirection self d) = head self
   \<and> tail (changeDirection self d) = tail self
   \<and> length_snake (changeDirection self d) = length_snake self
   \<and> (length_snake self = 1 \<longrightarrow> direction (changeDirection self d) = d)"
  unfolding changeDirection_def dir_val_opposite by simp

theorem changeDirection_heading_witness:
  "length_snake \<lparr>head = Some 0, tail = Some 0, direction = NORTH, length_snake = 1\<rparr> = 1
   \<and> direction (changeDirection
        \<lparr>head = Some 0, tail = Some 0, direction = NORTH, length_snake = 1\<rparr> SOUTH) = SOUTH
   \<and> direction (changeDirection
        \<lparr>head = Some 0, tail = Some 2, direction = NORTH, length_snake = 3\<rparr> SOUTH) = NORTH"
  using changeDirection_heading
    [of "\<lparr>head = Some 0, tail = Some 0, direction = NORTH, length_snake = 1\<rparr>" SOUTH]
    changeDirection_heading
    [of "\<lparr>head = Some 0, tail = Some 2, direction = NORTH, length_snake = 3\<rparr>" SOUTH]
  by simp

section \<open>Walks along the links\<close>

lemma path_nxt_live: "path_nxt h p ns \<Longrightarrow> a \<in> set ns \<Longrightarrow> h a \<noteq> None"
  by (induction ns arbitrary: p) (auto split: option.splits)

lemma path_prev_live: "path_prev h p ns \<Longrightarrow> a \<in> set ns \<Longrightarrow> h a \<noteq> None"
  by (induction ns arbitrary: p) (auto split: option.splits)

lemma path_nxt_cong:
  "(\<And>b. b \<in> set ns \<Longrightarrow> map_option nxt (h' b) = map_option nxt (h b)) \<Longrightarrow>
   path_nxt h' p ns = path_nxt h p ns"
proof (induction ns arbitrary: p)
  case Nil
  then show ?case by simp
next
  case (Cons a ns)
  have "map_option nxt (h' a) = map_option nxt (h a)" using Cons.prems by simp
  moreover have "\<And>q. path_nxt h' q ns = path_nxt h q ns" using Cons by simp
  ultimately show ?case by (cases "h a"; cases "h' a") auto
qed

lemma path_prev_cong:
  "(\<And>b. b \<in> set ns \<Longrightarrow> map_option prev (h' b) = map_option prev (h b)) \<Longrightarrow>
   path_prev h' p ns = path_prev h p ns"
proof (induction ns arbitrary: p)
  case Nil
  then show ?case by simp
next
  case (Cons a ns)
  have "map_option prev (h' a) = map_option prev (h a)" using Cons.prems by simp
  moreover have "\<And>q. path_prev h' q ns = path_prev h q ns" using Cons by simp
  ultimately show ?case by (cases "h a"; cases "h' a") auto
qed

lemma path_nxt_unique: "path_nxt h p as \<Longrightarrow> path_nxt h p bs \<Longrightarrow> as = bs"
proof (induction as arbitrary: p bs)
  case Nil
  then show ?case by (cases bs) auto
next
  case (Cons a as)
  then show ?case by (cases bs) (auto split: option.splits)
qed

lemma path_nxt_suffix: "path_nxt h p (xs @ ys) \<Longrightarrow> ys \<noteq> [] \<Longrightarrow> path_nxt h (Some (hd ys)) ys"
proof (induction xs arbitrary: p)
  case Nil
  then show ?case by (cases ys) auto
next
  case (Cons a xs)
  then show ?case by (auto split: option.splits)
qed

lemma path_nxt_hd_notin: "path_nxt h p (a # as) \<Longrightarrow> a \<notin> set as"
proof
  assume path: "path_nxt h p (a # as)" and "a \<in> set as"
  then obtain xs ys where as: "as = xs @ a # ys" by (auto simp: in_set_conv_decomp)
  have "path_nxt h p ((a # xs) @ (a # ys))" using path as by simp
  then have "path_nxt h (Some (hd (a # ys))) (a # ys)" by (rule path_nxt_suffix) simp
  moreover have "path_nxt h (Some a) (a # as)" using path by auto
  ultimately have "a # ys = a # as" by (simp only: list.sel) (rule path_nxt_unique)
  then show False using as by simp
qed

lemma path_nxt_distinct: "path_nxt h p ns \<Longrightarrow> distinct ns"
proof (induction ns arbitrary: p)
  case Nil
  then show ?case by simp
next
  case (Cons a ns)
  have "a \<notin> set ns" using Cons.prems by (rule path_nxt_hd_notin)
  moreover have "distinct ns" using Cons by (auto split: option.splits)
  ultimately show ?case by simp
qed

lemma path_nxt_last:
  "path_nxt h p ns \<Longrightarrow> ns \<noteq> [] \<Longrightarrow> \<exists>n. h (last ns) = Some n \<and> nxt n = None"
proof (induction ns arbitrary: p)
  case Nil
  then show ?case by simp
next
  case (Cons a ns)
  then show ?case by (cases ns) (auto split: option.splits)
qed

text \<open>Pushing a new head: a fresh node after the last one.\<close>

lemma path_nxt_snoc:
  assumes "path_nxt h p ns" and "ns \<noteq> []" and "a \<notin> set ns" and "h (last ns) = Some lastn"
    and "nxt nd = None"
  shows "path_nxt (h(a \<mapsto> nd, last ns \<mapsto> lastn\<lparr>nxt := Some a\<rparr>)) p (ns @ [a])"
  using assms
proof (induction ns arbitrary: p)
  case Nil
  then show ?case by simp
next
  case (Cons b ns)
  show ?case
  proof (cases ns)
    case Nil
    then show ?thesis using Cons.prems by (auto split: option.splits)
  next
    case (Cons c cs)
    define h' where "h' = h(a \<mapsto> nd, last ns \<mapsto> lastn\<lparr>nxt := Some a\<rparr>)"
    have d: "b \<notin> set ns" using Cons.prems(1) by (rule path_nxt_hd_notin)
    from Cons.prems obtain bn where bn: "h b = Some bn" "path_nxt h (nxt bn) ns" "p = Some b"
      by (auto split: option.splits)
    have ne: "ns \<noteq> []" using Cons by simp
    have l: "last (b # ns) = last ns" using ne by simp
    have "a \<notin> set ns" and "h (last ns) = Some lastn" using Cons.prems l by auto
    then have ih: "path_nxt h' (nxt bn) (ns @ [a])"
      unfolding h'_def using Cons.IH[OF bn(2) ne] Cons.prems(5) by blast
    have "b \<noteq> last ns" using d ne by auto
    moreover have "b \<noteq> a" using Cons.prems by auto
    ultimately have "h' b = Some bn" using bn by (simp add: h'_def)
    then have "path_nxt h' p ((b # ns) @ [a])" using ih bn(3) by simp
    then show ?thesis unfolding h'_def l .
  qed
qed

text \<open>Cutting the walk along prev at a node whose prev link is cleared.\<close>

lemma path_prev_cut:
  assumes "path_prev h p (xs @ x # ys)" and "x \<notin> set xs" and "h x = Some n"
  shows "path_prev (h(x \<mapsto> n\<lparr>prev := None\<rparr>)) p (xs @ [x])"
  using assms
proof (induction xs arbitrary: p)
  case Nil
  then show ?case by auto
next
  case (Cons b xs)
  then show ?case by (auto split: option.splits)
qed


lemma advance_chain:
  assumes chain: "snake_chain self h ns" and fresh: "h a = None"
  shows "\<exists>self' h'. advance self h a = Inr (tail self, self', h')
     \<and> tail self = Some (hd ns)
     \<and> head self' = Some a
     \<and> pos_at h (head self) \<noteq> None
     \<and> pos_at h' (head self') = map_option (move (direction self)) (pos_at h (head self))
     \<and> (\<forall>b. b \<noteq> a \<longrightarrow> pos_at h' (Some b) = pos_at h (Some b))
     \<and> length_snake self' = length_snake self
     \<and> direction self' = direction self
     \<and> path_prev h' (head self') (rev (tl ns @ [a]))
     \<and> snake_chain self' h' (tl ns @ [a])"
proof -
  from chain obtain t rest where ns: "ns = t # rest" by (cases ns) (auto simp: snake_chain_def)
  define e where "e = last ns"
  have pn: "path_nxt h (tail self) ns" and hd_e: "head self = Some e"
    and len: "length_snake self = length ns"
    and pp: "path_prev h (Some e) (rev ns) \<or> path_prev h (Some e) (rev (tl ns))"
    using chain by (auto simp: snake_chain_def e_def)
  have tl_t: "tail self = Some t" using pn ns by simp
  obtain hn where hn: "h e = Some hn" "nxt hn = None"
    using path_nxt_last[OF pn] ns by (auto simp: e_def)
  have a_notin: "a \<notin> set ns" using path_nxt_live[OF pn, of a] fresh by blast
  have dist: "distinct ns" using pn by (rule path_nxt_distinct)
  have e_in: "e \<in> set ns" using ns by (simp add: e_def)
  have ae: "a \<noteq> e" using a_notin e_in by auto
  define N where "N = \<lparr>pos = move (direction self) (pos hn), prev = Some e, nxt = None\<rparr>"
  define h2 where "h2 = h(a \<mapsto> N, e \<mapsto> hn\<lparr>nxt := Some a\<rparr>)"
  have p2: "path_nxt h2 (Some t) (t # rest @ [a])"
    using path_nxt_snoc[OF pn _ a_notin, of hn N] hn ns tl_t
    by (simp add: h2_def e_def N_def)
  then obtain tn where tn: "h2 t = Some tn" "path_nxt h2 (nxt tn) (rest @ [a])"
    by (auto split: option.splits)
  define t2 where "t2 = hd (rest @ [a])"
  obtain more where more: "rest @ [a] = t2 # more"
    by (cases "rest @ [a]") (auto simp: t2_def)
  obtain t2n where t2n: "nxt tn = Some t2" "h2 t2 = Some t2n"
    using tn(2) unfolding more by (auto split: option.splits)
  define h3 where "h3 = h2(t2 \<mapsto> t2n\<lparr>prev := None\<rparr>)"
  define self2 where "self2 = self\<lparr>head := Some a, tail := Some t2\<rparr>"
  have s1: "load h (head self) = Inr hn" using hn hd_e by (simp add: load_def)
  have s2: "newNode h a (move (direction self) (pos hn)) (head self) = (Some a, h(a \<mapsto> N))"
    using hd_e by (simp add: newNode_def N_def)
  have s3: "update (h(a \<mapsto> N)) (head self) (\<lambda>nd. nd\<lparr>nxt := Some a\<rparr>) = Inr h2"
    using hn hd_e ae by (simp add: update_def h2_def)
  have s4: "load h2 (head self) = Inr (hn\<lparr>nxt := Some a\<rparr>)"
    using hd_e by (simp add: load_def h2_def)
  have s5: "load h2 (Some t) = Inr tn" using tn by (simp add: load_def)
  have s6: "update h2 (Some t2) (\<lambda>nd. nd\<lparr>prev := None\<rparr>) = Inr h3"
    using t2n by (simp add: update_def h3_def)
  have adv: "advance self h a = Inr (tail self, self2, h3)"
    unfolding advance_def
    by (simp add: s1 s2 s3 s4 s5 s6 tl_t t2n(1) bindF_def self2_def)
  have n3: "path_nxt h3 (Some t2) (rest @ [a])"
  proof -
    have "path_nxt h3 (nxt tn) (rest @ [a]) = path_nxt h2 (nxt tn) (rest @ [a])"
      by (rule path_nxt_cong) (use t2n in \<open>auto simp: h3_def\<close>)
    then show ?thesis using tn(2) t2n(1) by simp
  qed
  have d2: "distinct (rest @ [a])" using dist a_notin ns by simp
  have pv3: "path_prev h3 (Some a) (rev (rest @ [a]))"
  proof (cases rest)
    case Nil
    then have "t2 = a" by (simp add: t2_def)
    then have "h3 a = Some (N\<lparr>prev := None\<rparr>)" using t2n ae by (auto simp: h3_def h2_def)
    then show ?thesis using Nil by simp
  next
    case (Cons r rs)
    have t2r: "t2 = r" using Cons by (simp add: t2_def)
    have pp2: "path_prev h2 (Some e) (rev ns) \<or> path_prev h2 (Some e) (rev (tl ns))"
    proof -
      have c: "\<And>b. b \<in> set ns \<Longrightarrow> map_option prev (h2 b) = map_option prev (h b)"
        using a_notin hn by (auto simp: h2_def)
      have "path_prev h2 (Some e) (rev ns) = path_prev h (Some e) (rev ns)"
        by (rule path_prev_cong) (use c in auto)
      moreover have "path_prev h2 (Some e) (rev (tl ns)) = path_prev h (Some e) (rev (tl ns))"
        by (rule path_prev_cong) (use c ns in auto)
      ultimately show ?thesis using pp by simp
    qed
    have ha: "h2 a = Some N" using ae by (simp add: h2_def)
    have "path_prev h2 (Some a) ((a # rev rs) @ r # [t]) \<or>
          path_prev h2 (Some a) ((a # rev rs) @ r # [])"
      using pp2 ha ns Cons by (auto simp: N_def)
    moreover have "r \<notin> set (a # rev rs)" using d2 Cons by auto
    ultimately have "path_prev h3 (Some a) ((a # rev rs) @ [r])"
      using path_prev_cut[of h2 "Some a" "a # rev rs" r _ t2n] t2n(2) t2r
      unfolding h3_def by blast
    then show ?thesis using Cons by simp
  qed
  have pos_head: "pos_at h (head self) = Some (pos hn)" using hd_e hn by (simp add: pos_at_def)
  have a3: "h3 a = Some N \<or> h3 a = Some (N\<lparr>prev := None\<rparr>)"
    using t2n ae by (auto simp: h3_def h2_def)
  have pos_new: "pos_at h3 (Some a) = Some (move (direction self) (pos hn))"
    using a3 by (auto simp: pos_at_def N_def)
  have others: "\<forall>b. b \<noteq> a \<longrightarrow> pos_at h3 (Some b) = pos_at h (Some b)"
    using t2n hn by (auto simp: pos_at_def h3_def h2_def split: if_splits)
  have ch: "snake_chain self2 h3 (tl ns @ [a])"
    using n3 pv3 ns len by (simp add: snake_chain_def self2_def)
  show ?thesis
    using adv tl_t ns pos_head pos_new others ch len pv3
    by (auto simp: self2_def)
qed

section \<open>Advancing\<close>




lemma growth_frame_value:
  "growth_frame =
     Inr (\<lparr>head = Some 1, tail = Some 0, direction = EAST, length_snake = 2\<rparr>,
          [0 \<mapsto> \<lparr>pos = \<lparr>px = 5, py = 5\<rparr>, prev = None, nxt = Some 1\<rparr>,
           1 \<mapsto> \<lparr>pos = \<lparr>px = 6, py = 5\<rparr>, prev = None, nxt = None\<rparr>])"
  by (simp add: growth_frame_def newSnake_def newNode_def advance_def grow_def bindF_def
      load_def update_def dir_of_def fun_upd_twist)

section \<open>Destroying the snake\<close>

lemma destroy_loop_last:
  assumes "h a = Some n" and "nxt n = None"
  shows "destroy_loop h (Some a) = Some (Inr (h(a := None)))"
proof -
  have "destroy_loop h (Some a) = destroy_loop (h(a := None)) None"
    using assms by (subst destroy_loop.simps) (simp add: destroyNode_def)
  also have "\<dots> = Some (Inr (h(a := None)))"
    by (subst destroy_loop.simps) simp
  finally show ?thesis .
qed

lemma destroySnake_frees_head_only:
  assumes "snake_chain self h ns"
  shows "destroySnake (Some self) h = Some (Inr (h(last ns := None)))"
proof -
  have pn: "path_nxt h (tail self) ns" and ne: "ns \<noteq> []" and hd: "head self = Some (last ns)"
    using assms by (auto simp: snake_chain_def)
  obtain n where "h (last ns) = Some n" "nxt n = None" using path_nxt_last[OF pn ne] by blast
  then show ?thesis using hd by (simp add: destroySnake_def destroy_loop_last)
qed

section \<open>Self collision\<close>








section \<open>The chain in the states between frames\<close>

lemma path_prev_unique: "path_prev h p as \<Longrightarrow> path_prev h p bs \<Longrightarrow> as = bs"
proof (induction as arbitrary: p bs)
  case Nil
  then show ?case by (cases bs) auto
next
  case (Cons a as)
  then show ?case by (cases bs) (auto split: option.splits)
qed

lemma snake_chain_changeDirection:
  "snake_chain (changeDirection s d) h ns = snake_chain s h ns"
  by (simp add: snake_chain_def changeDirection_def)

lemma newSnake_chain:
  "newSnake h a c r = (s, h') \<Longrightarrow> snake_chain s h' [a]"
  by (auto simp: newSnake_def newNode_def snake_chain_def)

lemma grow_chain:
  assumes pn: "path_nxt h (tail self) ns" and ne: "ns \<noteq> []"
    and hd: "head self = Some (last ns)" and len: "length_snake self = length ns"
    and pp: "path_prev h (head self) (rev ns)"
    and live: "h t = Some tn" and out: "t \<notin> set ns"
  shows "\<exists>self' h'. grow self h (Some t) = Inr (self', h') \<and> snake_chain self' h' (t # ns)
           \<and> length_snake self' = length_snake self + 1 \<and> h' = h(t \<mapsto> tn\<lparr>nxt := tail self\<rparr>)"
proof -
  define h' where "h' = h(t \<mapsto> tn\<lparr>nxt := tail self\<rparr>)"
  define self' where "self' = self\<lparr>tail := Some t, length_snake := length_snake self + 1\<rparr>"
  have g: "grow self h (Some t) = Inr (self', h')"
    using live by (simp add: grow_def update_def bindF_def h'_def self'_def)
  have "path_nxt h' (tail self) ns = path_nxt h (tail self) ns"
    by (rule path_nxt_cong) (use out in \<open>auto simp: h'_def\<close>)
  then have n': "path_nxt h' (Some t) (t # ns)" using pn by (simp add: h'_def)
  have "path_prev h' (head self) (rev ns) = path_prev h (head self) (rev ns)"
    by (rule path_prev_cong) (use out in \<open>auto simp: h'_def\<close>)
  then have p': "path_prev h' (head self) (rev ns)" using pp by simp
  have "snake_chain self' h' (t # ns)"
    using n' p' hd len ne by (simp add: snake_chain_def self'_def)
  then show ?thesis using g by (simp add: self'_def h'_def)
qed

lemma advance_step:
  assumes ch: "snake_chain s h ns" and fresh: "h a = None"
    and adv: "advance s h a = Inr (t, s', h')"
  shows "t = Some (hd ns) \<and> snake_chain s' h' (tl ns @ [a]) \<and>
         path_prev h' (head s') (rev (tl ns @ [a])) \<and> hd ns \<notin> set (tl ns @ [a]) \<and>
         h' (hd ns) \<noteq> None"
proof -
  from advance_chain[OF ch fresh] adv
  have t: "t = Some (hd ns)" and c': "snake_chain s' h' (tl ns @ [a])"
    and pv: "path_prev h' (head s') (rev (tl ns @ [a]))"
    and others: "\<forall>b. b \<noteq> a \<longrightarrow> pos_at h' (Some b) = pos_at h (Some b)"
    by auto
  have pn: "path_nxt h (tail s) ns" and ne: "ns \<noteq> []"
    using ch by (auto simp: snake_chain_def)
  have live: "h (hd ns) \<noteq> None" using path_nxt_live[OF pn, of "hd ns"] ne by simp
  then have neq: "hd ns \<noteq> a" using fresh by auto
  have "distinct ns" using pn by (rule path_nxt_distinct)
  then have "hd ns \<notin> set (tl ns)" using ne by (cases ns) auto
  then have out: "hd ns \<notin> set (tl ns @ [a])" using neq by simp
  have "pos_at h' (Some (hd ns)) = pos_at h (Some (hd ns))" using others neq by simp
  then have "h' (hd ns) \<noteq> None" using live by (auto simp: pos_at_def)
  then show ?thesis using t c' pv out by simp
qed

lemma settled_chain: "settled s h \<Longrightarrow> \<exists>ns. snake_chain s h ns"
proof (induction rule: settled.induct)
  case (settled_new h a c r s h')
  then show ?case using newSnake_chain by blast
next
  case (settled_turn s h d)
  then show ?case by (simp add: snake_chain_changeDirection)
next
  case (settled_step s h a t s' h' h'')
  then obtain ns where ns: "snake_chain s h ns" by blast
  from advance_step[OF ns settled_step.hyps(2,3)]
  have t: "t = Some (hd ns)" and ch: "snake_chain s' h' (tl ns @ [a])"
    and out: "hd ns \<notin> set (tl ns @ [a])" and live: "h' (hd ns) \<noteq> None"
    by auto
  have h'': "h'' = h'(hd ns := None)"
    using settled_step.hyps(4) t live by (auto simp: destroyNode_def)
  have n: "\<And>p. path_nxt h'' p (tl ns @ [a]) = path_nxt h' p (tl ns @ [a])"
    by (rule path_nxt_cong) (use out h'' in auto)
  have p1: "\<And>p. path_prev h'' p (rev (tl ns @ [a])) = path_prev h' p (rev (tl ns @ [a]))"
    by (rule path_prev_cong) (use out h'' in auto)
  have out2: "hd ns \<notin> set (tl (tl ns @ [a]))" using out by (cases "tl ns @ [a]") auto
  have p2: "\<And>p. path_prev h'' p (rev (tl (tl ns @ [a]))) = path_prev h' p (rev (tl (tl ns @ [a])))"
    by (rule path_prev_cong) (use out2 h'' in auto)
  have "snake_chain s' h'' (tl ns @ [a])"
    using ch unfolding snake_chain_def n p1 p2 .
  then show ?case by blast
next
  case (settled_grow s h a t s' h' s'' h'')
  then obtain ns where ns: "snake_chain s h ns" by blast
  from advance_step[OF ns settled_grow.hyps(2,3)]
  have t: "t = Some (hd ns)" and ch: "snake_chain s' h' (tl ns @ [a])"
    and pv: "path_prev h' (head s') (rev (tl ns @ [a]))"
    and out: "hd ns \<notin> set (tl ns @ [a])" and live: "h' (hd ns) \<noteq> None"
    by auto
  from live obtain tn where tn: "h' (hd ns) = Some tn" by auto
  from ch have c: "path_nxt h' (tail s') (tl ns @ [a])" "tl ns @ [a] \<noteq> []"
    "head s' = Some (last (tl ns @ [a]))" "length_snake s' = length (tl ns @ [a])"
    by (auto simp: snake_chain_def)
  from grow_chain[OF c pv tn out] settled_grow.hyps(4) t
  have "snake_chain s'' h'' (hd ns # tl ns @ [a])" by auto
  then show ?case by blast
qed

lemma advance_new_value:
  "advance \<lparr>head = Some 0, tail = Some 0, direction = EAST, length_snake = 1\<rparr>
      [0 \<mapsto> \<lparr>pos = \<lparr>px = 5, py = 5\<rparr>, prev = None, nxt = None\<rparr>] 1 =
   Inr (Some 0, \<lparr>head = Some 1, tail = Some 1, direction = EAST, length_snake = 1\<rparr>,
        [0 \<mapsto> \<lparr>pos = \<lparr>px = 5, py = 5\<rparr>, prev = None, nxt = Some 1\<rparr>,
         1 \<mapsto> \<lparr>pos = \<lparr>px = 6, py = 5\<rparr>, prev = None, nxt = None\<rparr>])"
  by (simp add: advance_def newNode_def bindF_def load_def update_def fun_upd_twist)

text \<open>
  Claim C3, on the code: after a growth frame from the start of a round the snake has
  length 2 and its tail is node 0, but \<open>grow\<close> has not written the \<open>prev\<close> link of the
  head: the walk from the head along \<open>prev\<close> visits the head alone and ends, so it does
  not reach the tail and no walk along \<open>prev\<close> visits \<open>length\<close> segments. The walk from
  the tail along \<open>nxt\<close> does visit both.
\<close>

theorem grow_leaves_prev_link_unset:
  "\<exists>s h. growth_frame = Inr (s, h) \<and> settled s h \<and> length_snake s = 2 \<and>
     head s = Some 1 \<and> tail s = Some 0 \<and> path_nxt h (tail s) [0, 1] \<and>
     path_prev h (head s) [1] \<and>
     \<not> (\<exists>ns. path_prev h (head s) ns \<and> length ns = length_snake s)"
proof -
  define s0 where "s0 = \<lparr>head = Some 0, tail = Some 0, direction = EAST, length_snake = 1\<rparr>"
  define h0 :: heap where "h0 = [0 \<mapsto> \<lparr>pos = \<lparr>px = 5, py = 5\<rparr>, prev = None, nxt = None\<rparr>]"
  define s1 where "s1 = \<lparr>head = Some 1, tail = Some 1, direction = EAST, length_snake = 1\<rparr>"
  define h1 :: heap where "h1 = [0 \<mapsto> \<lparr>pos = \<lparr>px = 5, py = 5\<rparr>, prev = None, nxt = Some 1\<rparr>,
         1 \<mapsto> \<lparr>pos = \<lparr>px = 6, py = 5\<rparr>, prev = None, nxt = None\<rparr>]"
  define s2 where "s2 = \<lparr>head = Some 1, tail = Some 0, direction = EAST, length_snake = 2\<rparr>"
  have new: "newSnake Map.empty 0 \<lparr>px = 5, py = 5\<rparr> 1 = (s0, h0)"
    by (simp add: newSnake_def newNode_def dir_of_def s0_def h0_def)
  have adv: "advance s0 h0 1 = Inr (Some 0, s1, h1)"
    unfolding s0_def h0_def s1_def h1_def by (rule advance_new_value)
  have gr: "grow s1 h1 (Some 0) = Inr (s2, h1)"
    by (simp add: grow_def update_def bindF_def s1_def h1_def s2_def fun_upd_twist)
  have gf: "growth_frame = Inr (s2, h1)"
    by (simp add: growth_frame_value s2_def h1_def)
  have "settled s0 h0" by (rule settled_new[OF _ new]) simp
  then have st: "settled s2 h1"
    by (rule settled_grow[OF _ _ adv gr]) (simp add: h0_def)
  have pv: "path_prev h1 (head s2) [1]" by (simp add: s2_def h1_def)
  have no: "\<not> (\<exists>ns. path_prev h1 (head s2) ns \<and> length ns = length_snake s2)"
  proof
    assume "\<exists>ns. path_prev h1 (head s2) ns \<and> length ns = length_snake s2"
    then obtain ns where "path_prev h1 (head s2) ns" "length ns = length_snake s2" by blast
    then have "ns = [1]" "length ns = 2" using path_prev_unique[OF pv] by (auto simp: s2_def)
    then show False by simp
  qed
  have pn: "path_nxt h1 (tail s2) [0, 1]" by (simp add: s2_def h1_def)
  have f: "length_snake s2 = 2" "head s2 = Some 1" "tail s2 = Some 0"
    by (simp_all add: s2_def)
  show ?thesis
    by (intro exI[of _ s2] exI[of _ h1] conjI gf st f pn pv no)
qed

section \<open>Claims on destroySnake and selfCollision\<close>

text \<open>
  Claim C8, on the code: the snake of the growth frame above has two live segments, the
  head in node 1 and the tail in node 0. \<open>destroySnake\<close> starts at the head and follows
  \<open>next\<close>, which is \<open>NULL\<close> at the head: it frees the head and returns, and the tail is
  still live.
\<close>

theorem destroySnake_leaves_tail_live:
  "\<exists>s h h'. growth_frame = Inr (s, h) \<and> length_snake s = 2 \<and> head s = Some 1 \<and>
     tail s = Some 0 \<and> h 0 \<noteq> None \<and> h 1 \<noteq> None \<and>
     destroySnake (Some s) h = Some (Inr h') \<and> h' 1 = None \<and> h' 0 \<noteq> None"
proof -
  define s2 where "s2 = \<lparr>head = Some 1, tail = Some 0, direction = EAST, length_snake = 2\<rparr>"
  define h1 :: heap where
    "h1 = [0 \<mapsto> \<lparr>pos = \<lparr>px = 5, py = 5\<rparr>, prev = None, nxt = Some 1\<rparr>,
           1 \<mapsto> \<lparr>pos = \<lparr>px = 6, py = 5\<rparr>, prev = None, nxt = None\<rparr>]"
  have gf: "growth_frame = Inr (s2, h1)" by (simp add: growth_frame_value s2_def h1_def)
  have "h1 1 = Some \<lparr>pos = \<lparr>px = 6, py = 5\<rparr>, prev = None, nxt = None\<rparr>"
    by (simp add: h1_def)
  then have "destroy_loop h1 (Some 1) = Some (Inr (h1(1 := None)))"
    by (rule destroy_loop_last) simp
  then have d: "destroySnake (Some s2) h1 = Some (Inr (h1(1 := None)))"
    by (simp add: destroySnake_def s2_def)
  have f: "length_snake s2 = 2" "head s2 = Some 1" "tail s2 = Some 0"
    by (simp_all add: s2_def)
  have l: "h1 0 \<noteq> None" "h1 1 \<noteq> None" "(h1(1 := None)) 1 = None" "(h1(1 := None)) 0 \<noteq> None"
    by (simp_all add: h1_def)
  show ?thesis
    by (intro exI[of _ s2] exI[of _ h1] exI[of _ "h1(1 := None)"] conjI gf f l d)
qed




section \<open>Spawning the orb\<close>

lemma crem_mod: "0 \<le> a \<Longrightarrow> 0 < b \<Longrightarrow> crem a b = a mod b"
proof -
  assume a: "0 \<le> a" and b: "0 < b"
  have "cdiv a b = a div b"
  proof (cases "a = 0")
    case True
    then show ?thesis by (simp add: cdiv_def)
  next
    case False
    then have "sgn a = 1" using a by simp
    then show ?thesis using a b by (simp add: cdiv_def)
  qed
  then show ?thesis by (simp add: crem_def minus_mult_div_eq_mod)
qed

lemma sample_inside: "screen_ok self \<Longrightarrow> inside self (sample self rnd i)"
proof -
  assume ok: "screen_ok self"
  have w: "0 < mapWidth self + 1" and h: "0 < mapHeight self + 1"
    using ok by (auto simp: screen_ok_def)
  have "int (rnd i) mod (mapWidth self + 1) < mapWidth self + 1"
    "int (rnd (i + 1)) mod (mapHeight self + 1) < mapHeight self + 1"
    "0 \<le> int (rnd i) mod (mapWidth self + 1)"
    "0 \<le> int (rnd (i + 1)) mod (mapHeight self + 1)"
    using w h by (simp_all only: pos_mod_bound pos_mod_sign)
  then show ?thesis using w h by (simp add: inside_def sample_def crem_mod)
qed

lemma grid_get_inside:
  "screen_ok self \<Longrightarrow> inside self p \<Longrightarrow> \<exists>v. grid_get (grid self) (py p) (px p) = Inr v"
proof -
  assume ok: "screen_ok self" and ins: "inside self p"
  have y: "nat (py p) < length (grid self)" using ok ins by (auto simp: screen_ok_def inside_def)
  then have "grid self ! nat (py p) \<in> set (grid self)" by simp
  then have "length (grid self ! nat (py p)) = nat (mapWidth self + 1)"
    using ok by (auto simp: screen_ok_def list_all_iff)
  then show ?thesis using y ins by (auto simp: grid_get_def inside_def)
qed

lemma screen_ok_orb: "screen_ok (self\<lparr>orb := p\<rparr>) = screen_ok self"
  by (simp add: screen_ok_def)

lemma occupied_orb: "occupied (self\<lparr>orb := p\<rparr>) q = occupied self q"
  by (simp add: occupied_def)

lemma sample_orb: "sample (self\<lparr>orb := p\<rparr>) rnd i = sample self rnd i"
  by (simp add: sample_def)

lemma spawnOrb_loop_step:
  assumes ok: "screen_ok self"
  shows "spawnOrb_loop self rnd i =
     (if occupied self (sample self rnd i)
      then spawnOrb_loop (self\<lparr>orb := sample self rnd i\<rparr>) rnd (i + 2)
      else Some (Inr (self\<lparr>orb := sample self rnd i\<rparr>, i + 2)))"
proof -
  obtain v where v: "grid_get (grid self) (py (sample self rnd i)) (px (sample self rnd i)) = Inr v"
    using grid_get_inside[OF ok sample_inside[OF ok]] by blast
  have nz: "\<not> (mapWidth self + 1 = 0 \<or> mapHeight self + 1 = 0)"
    using ok by (auto simp: screen_ok_def)
  show ?thesis
    by (subst spawnOrb_loop.simps) (simp add: nz v occupied_def Let_def)
qed

lemma spawnOrb_loop_first_free:
  assumes "screen_ok self"
    and "\<And>m. m < k \<Longrightarrow> occupied self (sample self rnd (i + 2 * m))"
    and "\<not> occupied self (sample self rnd (i + 2 * k))"
  shows "spawnOrb_loop self rnd i =
           Some (Inr (self\<lparr>orb := sample self rnd (i + 2 * k)\<rparr>, i + 2 * k + 2))"
  using assms
proof (induction k arbitrary: self i)
  case 0
  then show ?case by (subst spawnOrb_loop_step) simp_all
next
  case (Suc k)
  define self' where "self' = self\<lparr>orb := sample self rnd i\<rparr>"
  have occ: "occupied self (sample self rnd i)" using Suc.prems(2)[of 0] by simp
  have ok': "screen_ok self'" using Suc.prems(1) by (simp add: self'_def screen_ok_orb)
  have "spawnOrb_loop self' rnd (i + 2) =
          Some (Inr (self'\<lparr>orb := sample self' rnd (i + 2 + 2 * k)\<rparr>, i + 2 + 2 * k + 2))"
  proof (rule Suc.IH[OF ok'])
    fix m assume "m < k"
    then show "occupied self' (sample self' rnd (i + 2 + 2 * m))"
      using Suc.prems(2)[of "Suc m"] by (simp add: self'_def occupied_orb sample_orb)
  next
    show "\<not> occupied self' (sample self' rnd (i + 2 + 2 * k))"
      using Suc.prems(3) by (simp add: self'_def occupied_orb sample_orb)
  qed
  then show ?case
    using occ by (subst spawnOrb_loop_step[OF Suc.prems(1)]) (simp add: self'_def sample_orb)
qed

lemma spawnOrb_loop_returns_free:
  assumes ret: "spawnOrb_loop self rnd i = Some r"
  shows "screen_ok self \<longrightarrow> (\<exists>k. \<not> occupied self (sample self rnd (i + 2 * k)))"
proof (rule spawnOrb_loop.raw_induct
    [where P = "\<lambda>self rnd i r. screen_ok self \<longrightarrow>
                  (\<exists>k. \<not> occupied self (sample self rnd (i + 2 * k)))", OF _ ret])
  fix loop :: "Screen \<Rightarrow> (nat \<Rightarrow> nat) \<Rightarrow> nat \<Rightarrow> (fault + Screen \<times> nat) option"
  fix self rnd i r
  assume IH: "\<And>self rnd i r. loop self rnd i = Some r \<Longrightarrow>
      screen_ok self \<longrightarrow> (\<exists>k. \<not> occupied self (sample self rnd (i + 2 * k)))"
  assume body: "(if mapWidth self + 1 = 0 \<or> mapHeight self + 1 = 0
      then Some (Inl DivisionByZero)
      else let self' = self\<lparr>orb := sample self rnd i\<rparr>
           in case grid_get (grid self') (py (orb self')) (px (orb self')) of
                Inl e \<Rightarrow> Some (Inl e)
              | Inr v \<Rightarrow> if v = 1 then loop self' rnd (i + 2) else Some (Inr (self', i + 2))) =
      Some r"
  show "screen_ok self \<longrightarrow> (\<exists>k. \<not> occupied self (sample self rnd (i + 2 * k)))"
  proof
    assume ok: "screen_ok self"
    have nz: "\<not> (mapWidth self + 1 = 0 \<or> mapHeight self + 1 = 0)"
      using ok by (auto simp: screen_ok_def)
    obtain v where v: "grid_get (grid self) (py (sample self rnd i)) (px (sample self rnd i)) = Inr v"
      using grid_get_inside[OF ok sample_inside[OF ok]] by blast
    show "\<exists>k. \<not> occupied self (sample self rnd (i + 2 * k))"
    proof (cases "occupied self (sample self rnd i)")
      case False
      then have "\<not> occupied self (sample self rnd (i + 2 * 0))" by simp
      then show ?thesis by blast
    next
      case True
      then have "loop (self\<lparr>orb := sample self rnd i\<rparr>) rnd (i + 2) = Some r"
        using body nz v by (simp add: occupied_def Let_def)
      from IH[OF this] ok
      obtain k where "\<not> occupied self (sample self rnd (i + 2 + 2 * k))"
        by (auto simp: screen_ok_orb occupied_orb sample_orb)
      then have "\<not> occupied self (sample self rnd (i + 2 * Suc k))" by simp
      then show ?thesis by blast
    qed
  qed
qed

lemma spawnOrb_loop_cases:
  assumes ok: "screen_ok self"
  shows "(spawnOrb_loop self rnd i = None \<and> (\<forall>k. occupied self (sample self rnd (i + 2 * k)))) \<or>
     (\<exists>k. (\<forall>m<k. occupied self (sample self rnd (i + 2 * m))) \<and>
          \<not> occupied self (sample self rnd (i + 2 * k)) \<and>
          spawnOrb_loop self rnd i =
            Some (Inr (self\<lparr>orb := sample self rnd (i + 2 * k)\<rparr>, i + 2 * k + 2)))"
proof (cases "\<exists>k. \<not> occupied self (sample self rnd (i + 2 * k))")
  case True
  then obtain k where k: "\<not> occupied self (sample self rnd (i + 2 * k))"
    "\<forall>m<k. occupied self (sample self rnd (i + 2 * m))"
    using exists_least_iff[of "\<lambda>k. \<not> occupied self (sample self rnd (i + 2 * k))"] by auto
  then have "spawnOrb_loop self rnd i =
            Some (Inr (self\<lparr>orb := sample self rnd (i + 2 * k)\<rparr>, i + 2 * k + 2))"
    using spawnOrb_loop_first_free[OF ok, of k rnd i] by blast
  then show ?thesis using k by blast
next
  case False
  then have "spawnOrb_loop self rnd i = None"
    using spawnOrb_loop_returns_free[of self rnd i] ok by (cases "spawnOrb_loop self rnd i") auto
  then show ?thesis using False by simp
qed

lemma spawnOrb_loop_full:
  assumes "screen_ok self" and "\<forall>p. inside self p \<longrightarrow> occupied self p"
  shows "spawnOrb_loop self rnd i = None"
  using spawnOrb_loop_cases[OF assms(1), of rnd i] assms(2) sample_inside[OF assms(1)]
  by blast


lemma row_screen_ok: "length cells = 2 \<Longrightarrow> screen_ok (row_screen cells)"
  by (simp add: screen_ok_def row_screen_def)

lemma row_inside: "inside (row_screen cells) p = (py p = 0 \<and> (px p = 0 \<or> px p = 1))"
  by (auto simp: inside_def row_screen_def)


text \<open>
  Claim C7 as stated fails: on a field whose cells are all occupied \<open>spawnOrb\<close> does not
  return; here on a row of two occupied cells, with \<open>rand()\<close> counting 0, 1, 2, ...
\<close>

theorem spawnOrb_full_row_spins:
  "screen_ok (row_screen [1, 1])
   \<and> occupied (row_screen [1, 1]) \<lparr>px = 0, py = 0\<rparr>
   \<and> occupied (row_screen [1, 1]) \<lparr>px = 1, py = 0\<rparr>
   \<and> spawnOrb (row_screen [1, 1]) (\<lambda>n. n) 0 = None"
proof -
  have ok: "screen_ok (row_screen [1, 1])" by (simp add: row_screen_ok)
  have o: "occupied (row_screen [1, 1]) \<lparr>px = 0, py = 0\<rparr>"
    "occupied (row_screen [1, 1]) \<lparr>px = 1, py = 0\<rparr>"
    by (simp_all add: occupied_def grid_get_def row_screen_def)
  have "\<forall>p. inside (row_screen [1, 1]) p \<longrightarrow> occupied (row_screen [1, 1]) p"
  proof (intro allI impI)
    fix p :: Point
    assume "inside (row_screen [1, 1]) p"
    then have "p = \<lparr>px = 0, py = 0\<rparr> \<or> p = \<lparr>px = 1, py = 0\<rparr>" by (auto simp: row_inside)
    then show "occupied (row_screen [1, 1]) p" using o by auto
  qed
  then have "spawnOrb_loop (row_screen [1, 1]) (\<lambda>n. n) 0 = None"
    using ok by (rule spawnOrb_loop_full[rotated])
  then show ?thesis using ok o by (simp add: spawnOrb_def)
qed

text \<open>
  Claim C7, amended. \<open>spawnOrb\<close> has no test for a full board: when every cell of the
  field is occupied, every sample is rejected and the call does not return, whatever
  the random sequence; no outcome is surfaced.
\<close>

theorem spawnOrb_full_never_returns:
  assumes "screen_ok self" and "\<forall>p. inside self p \<longrightarrow> occupied self p"
  shows "spawnOrb self rnd i = None"
  using spawnOrb_loop_full[OF assms, of rnd i] by (simp add: spawnOrb_def)

theorem spawnOrb_full_never_returns_witness:
  "screen_ok full_screen
   \<and> occupied full_screen \<lparr>px = 0, py = 0\<rparr> \<and> occupied full_screen \<lparr>px = 1, py = 0\<rparr>
   \<and> occupied full_screen \<lparr>px = 0, py = 1\<rparr> \<and> occupied full_screen \<lparr>px = 1, py = 1\<rparr>
   \<and> spawnOrb full_screen (\<lambda>n. 7 * n + 3) 0 = None"
proof -
  have ok: "screen_ok full_screen"
    by (simp add: screen_ok_def full_screen_def newScreen_def cdiv_def)
  have o: "occupied full_screen \<lparr>px = 0, py = 0\<rparr>" "occupied full_screen \<lparr>px = 1, py = 0\<rparr>"
    "occupied full_screen \<lparr>px = 0, py = 1\<rparr>" "occupied full_screen \<lparr>px = 1, py = 1\<rparr>"
    by (simp_all add: occupied_def grid_get_def full_screen_def newScreen_def)
  have all: "\<forall>p. inside full_screen p \<longrightarrow> occupied full_screen p"
  proof (intro allI impI)
    fix p :: Point
    assume "inside full_screen p"
    then have "(px p = 0 \<or> px p = 1) \<and> (py p = 0 \<or> py p = 1)"
      by (auto simp: inside_def full_screen_def newScreen_def cdiv_def)
    then have "p = \<lparr>px = 0, py = 0\<rparr> \<or> p = \<lparr>px = 1, py = 0\<rparr> \<or>
               p = \<lparr>px = 0, py = 1\<rparr> \<or> p = \<lparr>px = 1, py = 1\<rparr>"
      by auto
    then show "occupied full_screen p" using o by auto
  qed
  show ?thesis using spawnOrb_full_never_returns[OF ok all] ok o by simp
qed

section \<open>Pacing\<close>





section \<open>The grid at the start of a round\<close>

lemma cdiv_nonneg: "0 \<le> a \<Longrightarrow> 0 < b \<Longrightarrow> cdiv a b = a div b"
  by (cases "a = 0") (simp_all add: cdiv_def)

lemma newScreen_ok: "1 \<le> mx \<Longrightarrow> 1 \<le> my \<Longrightarrow> screen_ok (newScreen mx my)"
  by (simp add: screen_ok_def newScreen_def cdiv_nonneg Let_def list_all_iff pos_imp_zdiv_nonneg_iff)

lemma newScreen_free:
  "inside (newScreen mx my) p \<Longrightarrow> 1 \<le> mx \<Longrightarrow> 1 \<le> my \<Longrightarrow>
   grid_get (grid (newScreen mx my)) (py p) (px p) = Inr 0"
  by (auto simp: inside_def newScreen_def grid_get_def Let_def cdiv_nonneg)

text \<open>
  Claim C5, on the code: at the start of a round on a terminal of 80 by 24 the snake's
  only segment lies on the centre (9, 7) of the field, and the grid, which \<open>newScreen\<close>
  has just cleared, holds 0 there: nothing marks the cell of the new snake. With
  \<open>rand()\<close> returning 9 and 7 for it, the first \<open>spawnOrb\<close> accepts that cell and puts
  the orb on the snake's head.
\<close>

theorem round_start_head_cell_unmarked:
  "\<exists>w. round_start start_rand start_input = Some (Inr w)
     \<and> length_snake (snake w) = 1
     \<and> pos_at (nodes w) (head (snake w)) = Some \<lparr>px = 9, py = 7\<rparr>
     \<and> grid_get (grid (screen w)) 7 9 = Inr 0
     \<and> orb (screen w) = \<lparr>px = 9, py = 7\<rparr>"
proof -
  define scr0 where "scr0 = newScreen 80 24"
  have ok: "screen_ok scr0" unfolding scr0_def by (rule newScreen_ok) simp_all
  have m: "mapWidth scr0 = 19" "mapHeight scr0 = 15"
    by (simp_all add: scr0_def newScreen_def cdiv_def)
  have s: "sample scr0 start_rand 1 = \<lparr>px = 9, py = 7\<rparr>"
    by (simp add: sample_def m start_rand_def crem_def cdiv_def)
  have ins: "inside scr0 \<lparr>px = 9, py = 7\<rparr>" by (simp add: inside_def m)
  have g: "grid_get (grid scr0) 7 9 = Inr 0"
    using newScreen_free[of 80 24 "\<lparr>px = 9, py = 7\<rparr>"] ins by (simp add: scr0_def)
  then have "\<not> occupied scr0 \<lparr>px = 9, py = 7\<rparr>" by (simp add: occupied_def)
  then have free: "\<not> occupied scr0 (sample scr0 start_rand (1 + 2 * 0))" using s by simp
  have "spawnOrb_loop scr0 start_rand (Suc 0) = Some (Inr (scr0\<lparr>orb := \<lparr>px = 9, py = 7\<rparr>\<rparr>, 3))"
    using spawnOrb_loop_first_free[OF ok _ free] s by simp
  then have sp: "spawnOrb scr0 start_rand (Suc 0) =
      Some (Inr (scr0\<lparr>orb := \<lparr>px = 9, py = 7\<rparr>\<rparr>, 3, [DrawPoint \<lparr>px = 9, py = 7\<rparr> COLOR_MAGENTA]))"
    by (simp add: spawnOrb_def)
  define w where "w = \<lparr>snake = \<lparr>head = Some 0, tail = Some 0, direction = WEST, length_snake = 1\<rparr>,
      nodes = [0 \<mapsto> \<lparr>pos = \<lparr>px = 9, py = 7\<rparr>, prev = None, nxt = None\<rparr>],
      screen = scr0\<lparr>orb := \<lparr>px = 9, py = 7\<rparr>\<rparr>, quit = False,
      collision = \<lparr>px = - 1, py = - 1\<rparr>, progress = Finite 0,
      difficulty = INCREMENTAL, wallCollision = False, rand_calls = 3,
      out = [ShowDialog 0 \<lparr>px = 0, py = 0\<rparr>, Walls,
             DrawPoint \<lparr>px = 9, py = 7\<rparr> COLOR_MAGENTA, Score 1]\<rparr>"
  have r0: "start_rand 0 = 7" by (simp add: start_rand_def)
  have c: "cdiv 19 2 = 9" "cdiv 15 2 = 7" by (simp_all add: cdiv_def)
  have rs: "round_start start_rand start_input = Some (Inr w)"
    by (simp add: round_start_def start_input_def scr0_def[symmetric] m sp bindP_def
        newSnake_def newNode_def c r0 dir_of_def w_def)
  have f: "length_snake (snake w) = 1"
    "pos_at (nodes w) (head (snake w)) = Some \<lparr>px = 9, py = 7\<rparr>"
    "grid_get (grid (screen w)) 7 9 = Inr 0"
    "orb (screen w) = \<lparr>px = 9, py = 7\<rparr>"
    using g by (simp_all add: w_def pos_at_def)
  show ?thesis
    by (intro exI[of _ w] conjI rs f)
qed

section \<open>A frame of the game loop\<close>



















end
